theory Spec2Isabelle
  imports Main "HOL-Library.Word" "HOL-Library.Multiset" "HOL-Library.Sublist"
begin

section \<open>The Huffman image codec of \<^verbatim>\<open>p.cpp\<close>\<close>

text \<open>
  The program counts the byte values of a PGM image, builds a Huffman tree with a
  \<^verbatim>\<open>std::priority_queue\<close>, derives a code table, writes the concatenated codes as packed
  bytes, reads them back and decodes them with the same tree.

  Conventions of the embedding:
  \<^item> \<^verbatim>\<open>unsigned char\<close> is \<open>8 word\<close>, \<^verbatim>\<open>int\<close> is \<open>32 word\<close> read as two's complement
    (\<open>sint\<close>); \<open>+\<close> on it wraps around.
  \<^item> A \<^verbatim>\<open>Node*\<close> is a value of the datatype \<open>node\<close>: \<open>Null\<close> for \<^verbatim>\<open>nullptr\<close>, \<open>Node\<close> for a
    pointer to an allocated struct. The program never shares or mutates a node after it
    has been linked, so the tree is a value.
  \<^item> A \<^verbatim>\<open>std::string\<close> of bit characters is a \<open>string\<close>.
  \<^item> Everything the C++ standard leaves undefined, and every exception of the library,
    is a value of \<open>fault\<close>; a function that can reach one returns \<open>fault + 'a\<close>.
\<close>

subsection \<open>Data\<close>

type_synonym uchar = "8 word"
type_synonym cint = "32 word"

datatype node = Null | Node (pixel: uchar) (freq: cint) (left: node) (right: node)

datatype fault =
    TopOfEmptyQueue      \<comment> \<open>\<^verbatim>\<open>minHeap.top()\<close> on an empty queue: undefined\<close>
  | NullDereference      \<comment> \<open>\<^verbatim>\<open>p->field\<close> with \<^verbatim>\<open>p == nullptr\<close>: undefined\<close>
  | InvalidArgument      \<comment> \<open>\<^verbatim>\<open>std::invalid_argument\<close> of the \<^verbatim>\<open>std::bitset\<close> constructor\<close>
  | LengthError          \<comment> \<open>\<^verbatim>\<open>std::length_error\<close> of the \<^verbatim>\<open>std::string\<close> constructor\<close>
  | ReadPastEnd          \<comment> \<open>\<^verbatim>\<open>infile.get\<close> fails and the byte read is indeterminate\<close>

text \<open>The frequency table, an \<^verbatim>\<open>unordered_map<unsigned char, int>\<close>, is the list of its
  entries in the order in which the range-for of \<^verbatim>\<open>buildHuffmanTree\<close> visits them. The
  standard does not fix that order, and no theorem below depends on it.\<close>

type_synonym freq_table = "(uchar \<times> cint) list"

text \<open>The code table, an \<^verbatim>\<open>unordered_map<unsigned char, std::string>\<close> that is only indexed.\<close>

type_synonym code_table = "uchar \<rightharpoonup> string"

subsection \<open>The priority queue\<close>

text \<open>
  \<^verbatim>\<open>Compare\<close> is the queue's ordering: \<^verbatim>\<open>l->freq > r->freq\<close> on \<^verbatim>\<open>int\<close>.
\<close>

definition Compare :: "node \<Rightarrow> node \<Rightarrow> bool" where
  "Compare l r \<longleftrightarrow> sint (freq l) > sint (freq r)"

text \<open>
  \<^verbatim>\<open>std::priority_queue\<close> belongs to the C++ library, not to this program. Its contract: \<^verbatim>\<open>top()\<close>
  is an element \<open>t\<close> of the queue such that \<open>Compare t m\<close> holds for no element \<open>m\<close>, and
  \<^verbatim>\<open>pop()\<close> removes that element. Which one of several such elements is on top depends on
  the heap layout of the library at hand. The queue is modelled as the list of its
  elements (\<open>pq_push\<close> appends) and the library's choice is the parameter \<open>tie\<close>: the
  top is the candidate number \<open>tie q\<close>, counted modulo the number of candidates, so that
  every value of the parameter is a choice the contract allows and every allowed choice
  is the value of some parameter.
\<close>

type_synonym tiebreak = "node list \<Rightarrow> nat"

definition top_candidates :: "node list \<Rightarrow> nat list" where
  "top_candidates q = filter (\<lambda>i. list_all (\<lambda>m. \<not> Compare (q ! i) m) q) [0..<length q]"

definition top_index :: "tiebreak \<Rightarrow> node list \<Rightarrow> nat" where
  "top_index tie q = top_candidates q ! (tie q mod length (top_candidates q))"

definition pq_top :: "tiebreak \<Rightarrow> node list \<Rightarrow> node" where
  "pq_top tie q = q ! top_index tie q"

definition pq_pop :: "tiebreak \<Rightarrow> node list \<Rightarrow> node list" where
  "pq_pop tie q = take (top_index tie q) q @ drop (Suc (top_index tie q)) q"

definition pq_push :: "node \<Rightarrow> node list \<Rightarrow> node list" where
  "pq_push n q = q @ [n]"

lemma top_candidates_nonempty: "q \<noteq> [] \<Longrightarrow> top_candidates q \<noteq> []"
proof -
  assume ne: "q \<noteq> []"
  let ?f = "\<lambda>n. sint (freq n)"
  have "Min (?f ` set q) \<in> ?f ` set q"
    using ne by (intro Min_in) auto
  then obtain x where x0: "x \<in> set q" "?f x = Min (?f ` set q)"
    by auto
  have x: "x \<in> set q" "\<forall>y\<in>set q. ?f x \<le> ?f y"
    using x0 by auto
  then obtain i where i: "i < length q" "q ! i = x"
    by (auto simp: in_set_conv_nth)
  have "list_all (\<lambda>m. \<not> Compare (q ! i) m) q"
    using x i by (auto simp: list_all_iff Compare_def not_less)
  with i have "i \<in> set (top_candidates q)"
    by (simp add: top_candidates_def)
  then show ?thesis by auto
qed

lemma top_index_in_candidates: "q \<noteq> [] \<Longrightarrow> top_index tie q \<in> set (top_candidates q)"
  using top_candidates_nonempty [of q] by (simp add: top_index_def)

lemma top_index_less: "q \<noteq> [] \<Longrightarrow> top_index tie q < length q"
  using top_index_in_candidates [of q tie] by (simp add: top_candidates_def)

lemma length_pq_pop: "q \<noteq> [] \<Longrightarrow> length (pq_pop tie q) = length q - 1"
  using top_index_less [of q tie] by (simp add: pq_pop_def)

lemma length_pq_pop_twice:
  assumes "1 < length q"
  shows "length (pq_pop tie' (pq_pop tie q)) = length q - 2"
proof -
  have "length (pq_pop tie q) = length q - 1"
    using assms by (intro length_pq_pop) auto
  moreover from this have "pq_pop tie q \<noteq> []"
    using assms by auto
  ultimately show ?thesis
    by (simp add: length_pq_pop)
qed

subsection \<open>buildHuffmanTree\<close>

text \<open>The \<^verbatim>\<open>while (minHeap.size() > 1)\<close> loop, on the queue.\<close>

function merge_loop :: "tiebreak \<Rightarrow> node list \<Rightarrow> node list" where
  "merge_loop tie q =
     (if length q > 1 then
        (let l = pq_top tie q; q1 = pq_pop tie q;
             r = pq_top tie q1; q2 = pq_pop tie q1;
             sum = Node 0 (freq l + freq r) l r
         in merge_loop tie (pq_push sum q2))
      else q)"
  by pat_completeness auto
termination
  by (relation "measure (\<lambda>(tie, q). length q)")
     (auto simp: pq_push_def length_pq_pop_twice)

declare merge_loop.simps [simp del]

definition buildHuffmanTree :: "tiebreak \<Rightarrow> freq_table \<Rightarrow> fault + node" where
  "buildHuffmanTree tie fq =
     (let minHeap = foldl (\<lambda>q pair. pq_push (Node (fst pair) (snd pair) Null Null) q) [] fq;
          minHeap' = merge_loop tie minHeap
      in if minHeap' = [] then Inl TopOfEmptyQueue else Inr (pq_top tie minHeap'))"

subsection \<open>generateHuffmanCodes\<close>

text \<open>The recursion of the source: return on \<^verbatim>\<open>nullptr\<close>; store \<open>str\<close> under the node's
  pixel when that pixel is not 0; then the left subtree with \<open>str + "0"\<close> and the right
  one with \<open>str + "1"\<close>, all three on the same table.\<close>

fun generateHuffmanCodes :: "node \<Rightarrow> string \<Rightarrow> code_table \<Rightarrow> code_table" where
  "generateHuffmanCodes Null str huffmanCode = huffmanCode"
| "generateHuffmanCodes (Node p f l r) str huffmanCode =
     (let hc1 = (if p \<noteq> 0 then huffmanCode(p \<mapsto> str) else huffmanCode);
          hc2 = generateHuffmanCodes l (str @ ''0'') hc1
      in generateHuffmanCodes r (str @ ''1'') hc2)"

subsection \<open>writeCompressed and readCompressed\<close>

text \<open>The file \<^verbatim>\<open>output.huff\<close>: three \<^verbatim>\<open>int\<close> fields, written and read back by the same
  program as raw memory, and the payload bytes.\<close>

record huff_file =
  bitsCount :: cint
  width :: cint
  height :: cint
  payload :: "uchar list"

text \<open>\<^verbatim>\<open>std::bitset<8>(s)\<close> for a string \<open>s\<close> of at most 8 characters: the last character of
  \<open>s\<close> is bit 0, the one before it bit 1, and so on; the bits that \<open>s\<close> does not reach
  are 0. A character other than \<^verbatim>\<open>'0'\<close> and \<^verbatim>\<open>'1'\<close> throws. \<^verbatim>\<open>to_ulong\<close> and \<^verbatim>\<open>put\<close> then
  write the value as one byte.\<close>

definition bitset8_of_string :: "string \<Rightarrow> fault + uchar" where
  "bitset8_of_string s =
     (if list_all (\<lambda>c. c = CHR ''0'' \<or> c = CHR ''1'') s
      then Inr (foldl (\<lambda>w c. 2 * w + (if c = CHR ''1'' then 1 else 0)) 0 s)
      else Inl InvalidArgument)"

text \<open>\<^verbatim>\<open>std::bitset<8>(byte).to_string()\<close>: eight characters, bit 7 first.\<close>

definition bitset8_to_string :: "uchar \<Rightarrow> string" where
  "bitset8_to_string b = map (\<lambda>i. if bit b i then CHR ''1'' else CHR ''0'') [7, 6, 5, 4, 3, 2, 1, 0]"

text \<open>The loop \<^verbatim>\<open>for (i = 0; i < compressedData.size(); i += 8)\<close> of \<^verbatim>\<open>writeCompressed\<close>;
  \<^verbatim>\<open>substr(i, 8)\<close> is \<open>take 8 (drop i s)\<close>. \<open>out\<close> is the payload written so far.\<close>

function write_loop :: "string \<Rightarrow> nat \<Rightarrow> uchar list \<Rightarrow> fault + uchar list" where
  "write_loop compressedData i out =
     (if i < length compressedData then
        (case bitset8_of_string (take 8 (drop i compressedData)) of
           Inl e \<Rightarrow> Inl e
         | Inr byte \<Rightarrow> write_loop compressedData (i + 8) (out @ [byte]))
      else Inr out)"
  by pat_completeness auto
termination
  by (relation "measure (\<lambda>(s, i, out). length s - i)") auto

declare write_loop.simps [simp del]

text \<open>\<^verbatim>\<open>int bitsCount = compressedData.size()\<close> keeps the low 32 bits of the size.\<close>

definition writeCompressed :: "string \<Rightarrow> cint \<Rightarrow> cint \<Rightarrow> fault + huff_file" where
  "writeCompressed compressedData w h =
     (case write_loop compressedData 0 [] of
        Inl e \<Rightarrow> Inl e
      | Inr bytes \<Rightarrow>
          Inr \<lparr>bitsCount = of_nat (length compressedData), width = w, height = h,
               payload = bytes\<rparr>)"

text \<open>The loop \<^verbatim>\<open>for (i = 0; i < bitsCount; i += 8)\<close> of \<^verbatim>\<open>readCompressed\<close>, with \<open>n\<close> the
  value of \<^verbatim>\<open>bitsCount\<close> and \<open>bytes\<close> the rest of the file. \<^verbatim>\<open>replace(i, 8, t)\<close> removes the
  characters at positions \<open>i\<close> to \<open>i + 7\<close> that exist and puts all of \<open>t\<close> in their
  place.\<close>

function read_loop :: "uchar list \<Rightarrow> nat \<Rightarrow> nat \<Rightarrow> string \<Rightarrow> fault + string" where
  "read_loop bytes n i compressedData =
     (if i < n then
        (case bytes of
           [] \<Rightarrow> Inl ReadPastEnd
         | byte # rest \<Rightarrow>
             read_loop rest n (i + 8)
               (take i compressedData @ bitset8_to_string byte @ drop (i + 8) compressedData))
      else Inr compressedData)"
  by pat_completeness auto
termination
  by (relation "measure (\<lambda>(bytes, n, i, cd). n - i)") auto

declare read_loop.simps [simp del]

text \<open>\<^verbatim>\<open>readCompressed\<close> returns the string and, through its reference parameters, the
  width, the height and the bit count. \<^verbatim>\<open>std::string(bitsCount, '0')\<close> converts a negative
  count to a size beyond \<^verbatim>\<open>max_size()\<close> and throws.\<close>

definition readCompressed :: "huff_file \<Rightarrow> fault + (string \<times> cint \<times> cint \<times> cint)" where
  "readCompressed file =
     (if sint (bitsCount file) < 0 then Inl LengthError
      else
        (let n = nat (sint (bitsCount file)) in
         case read_loop (payload file) n 0 (replicate n (CHR ''0'')) of
           Inl e \<Rightarrow> Inl e
         | Inr compressedData \<Rightarrow>
             Inr (compressedData, width file, height file, bitsCount file)))"

subsection \<open>decompressImage\<close>

text \<open>The range-for over the characters of \<^verbatim>\<open>compressedData\<close>. \<open>cur\<close> is \<^verbatim>\<open>currentNode\<close> and
  \<open>out\<close> is \<^verbatim>\<open>decompressedImage\<close>. Every character other than \<^verbatim>\<open>'0'\<close> goes right. Both
  \<^verbatim>\<open>currentNode->left\<close> and, after the move, \<^verbatim>\<open>currentNode->pixel\<close> dereference the pointer.\<close>

fun decode_loop :: "node \<Rightarrow> node \<Rightarrow> string \<Rightarrow> uchar list \<Rightarrow> fault + uchar list" where
  "decode_loop root cur [] out = Inr out"
| "decode_loop root Null (b # bs) out = Inl NullDereference"
| "decode_loop root (Node p f l r) (b # bs) out =
     (case (if b = CHR ''0'' then l else r) of
        Null \<Rightarrow> Inl NullDereference
      | Node p' f' l' r' \<Rightarrow>
          if p' \<noteq> 0 then decode_loop root root bs (out @ [p'])
          else decode_loop root (Node p' f' l' r') bs out)"

definition decompressImage :: "string \<Rightarrow> node \<Rightarrow> cint \<Rightarrow> cint \<Rightarrow> fault + uchar list" where
  "decompressImage compressedData root w h = decode_loop root root compressedData []"

subsection \<open>The pipeline of main\<close>

text \<open>\<^verbatim>\<open>freq[pixel]++\<close>: a missing key is inserted with count 0 and then incremented. New
  keys are put at the end of the list.\<close>

fun count_pixel :: "freq_table \<Rightarrow> uchar \<Rightarrow> freq_table" where
  "count_pixel [] p = [(p, 1)]"
| "count_pixel ((k, c) # fq) p = (if k = p then (k, c + 1) # fq else (k, c) # count_pixel fq p)"

text \<open>\<^verbatim>\<open>huffmanCode[pixel]\<close> in the encoding loop: a missing key yields the empty string.\<close>

definition code_of :: "code_table \<Rightarrow> uchar \<Rightarrow> string" where
  "code_of huffmanCode p = (case huffmanCode p of None \<Rightarrow> [] | Some c \<Rightarrow> c)"

text \<open>\<^verbatim>\<open>main\<close> from the frequency count to the decompressed image, for an image \<open>img\<close>
  that \<^verbatim>\<open>readPGM\<close> has delivered. The result is the sample sequence handed to \<^verbatim>\<open>writePGM\<close>.\<close>

definition main_roundtrip :: "tiebreak \<Rightarrow> uchar list \<Rightarrow> cint \<Rightarrow> cint \<Rightarrow> fault + uchar list" where
  "main_roundtrip tie img w h =
     (let freq = foldl count_pixel [] img in
      case buildHuffmanTree tie freq of
        Inl e \<Rightarrow> Inl e
      | Inr root \<Rightarrow>
          (let huffmanCode = generateHuffmanCodes root [] Map.empty;
               compressedData = concat (map (code_of huffmanCode) img)
           in case writeCompressed compressedData w h of
                Inl e \<Rightarrow> Inl e
              | Inr file \<Rightarrow>
                  (case readCompressed file of
                     Inl e \<Rightarrow> Inl e
                   | Inr (readCompressedData, w', h', n) \<Rightarrow>
                       decompressImage readCompressedData root w' h')))"

section \<open>The specification's tree construction\<close>

text \<open>
  The construction as the specification words it, on the multiset of the nodes in the
  queue: a node is \<open>lowest\<close> when it is in the queue and no node has a smaller frequency;
  as long as two nodes can be extracted, the node extracted first and the node extracted
  second from what is left become the left and the right child of a new node that carries
  the sum of their frequencies (the program's \<^verbatim>\<open>int\<close> addition) and replaces them; a queue
  of exactly one node yields that node as the root. The relation admits every way of
  breaking ties.
\<close>

definition lowest :: "node \<Rightarrow> node multiset \<Rightarrow> bool" where
  "lowest n M \<longleftrightarrow> n \<in># M \<and> (\<forall>m\<in>#M. sint (freq n) \<le> sint (freq m))"

inductive spec_huffman_tree :: "node multiset \<Rightarrow> node \<Rightarrow> bool" where
  remaining: "spec_huffman_tree {#n#} n"
| combine: "lowest a M \<Longrightarrow> lowest b (M - {#a#}) \<Longrightarrow>
     spec_huffman_tree (add_mset (Node 0 (freq a + freq b) a b) (M - {#a#} - {#b#})) root \<Longrightarrow>
     spec_huffman_tree M root"

text \<open>The total weighted code length of a code table: the sum over the entries of the
  frequency table of frequency times code length.\<close>

definition weighted_code_length :: "freq_table \<Rightarrow> code_table \<Rightarrow> int" where
  "weighted_code_length fq huffmanCode =
     (\<Sum>pair\<leftarrow>fq. sint (snd pair) * int (length (code_of huffmanCode (fst pair))))"

section \<open>Shapes of trees\<close>

text \<open>
  \<open>strict_binary\<close>: every node is a leaf (both pointers null) or carries pixel 0 and two
  subtrees. \<open>proper\<close>: moreover no leaf carries pixel 0, so that \<^verbatim>\<open>pixel != 0\<close> tells the
  leaves from the inner nodes. \<open>codes t\<close> lists, for every node of \<open>t\<close> with a pixel other
  than 0, the pixel and the path from the root of \<open>t\<close> to the node.
\<close>

fun strict_binary :: "node \<Rightarrow> bool" where
  "strict_binary Null = False"
| "strict_binary (Node p f l r) =
     ((l = Null \<and> r = Null) \<or> (p = 0 \<and> strict_binary l \<and> strict_binary r))"

fun leaf_pixels :: "node \<Rightarrow> uchar set" where
  "leaf_pixels Null = {}"
| "leaf_pixels (Node p f l r) =
     (if l = Null \<and> r = Null then {p} else leaf_pixels l \<union> leaf_pixels r)"

fun codes :: "node \<Rightarrow> (uchar \<times> string) list" where
  "codes Null = []"
| "codes (Node p f l r) =
     (if p \<noteq> 0 then [(p, [])] else []) @
     map (\<lambda>(a, c). (a, CHR ''0'' # c)) (codes l) @
     map (\<lambda>(a, c). (a, CHR ''1'' # c)) (codes r)"

fun proper :: "node \<Rightarrow> bool" where
  "proper Null = False"
| "proper (Node p f l r) =
     (if l = Null \<and> r = Null then p \<noteq> 0 else p = 0 \<and> proper l \<and> proper r)"

definition is_leaf :: "node \<Rightarrow> bool" where
  "is_leaf t \<longleftrightarrow> (case t of Null \<Rightarrow> False | Node p f l r \<Rightarrow> l = Null \<and> r = Null)"

section \<open>Evaluation rules\<close>

text \<open>The loop equation of \<open>merge_loop\<close> as two conditional rules, so that the simplifier
  unfolds it only where the size of the queue is known.\<close>

lemma merge_loop_done: "length q \<le> 1 \<Longrightarrow> merge_loop tie q = q"
  by (subst merge_loop.simps) simp

lemma merge_loop_step:
  "1 < length q \<Longrightarrow>
   merge_loop tie q =
   merge_loop tie
     (pq_push (Node 0 (freq (pq_top tie q) + freq (pq_top tie (pq_pop tie q)))
                (pq_top tie q) (pq_top tie (pq_pop tie q)))
        (pq_pop tie (pq_pop tie q)))"
  by (subst merge_loop.simps) (simp add: Let_def)

lemmas build_eval = buildHuffmanTree_def Let_def merge_loop_done merge_loop_step
  pq_push_def pq_top_def pq_pop_def top_index_def top_candidates_def Compare_def

lemmas file_eval = writeCompressed_def write_loop.simps readCompressed_def read_loop.simps
  bitset8_of_string_def bitset8_to_string_def

section \<open>The queue and the loop\<close>

lemma pq_top_lowest: "q \<noteq> [] \<Longrightarrow> lowest (pq_top tie q) (mset q)"
proof -
  assume ne: "q \<noteq> []"
  let ?i = "top_index tie q"
  have "?i \<in> set (top_candidates q)" using ne by (rule top_index_in_candidates)
  then have i: "?i < length q" and m: "list_all (\<lambda>m. \<not> Compare (q ! ?i) m) q"
    by (simp_all add: top_candidates_def)
  have "\<forall>m\<in>set q. sint (freq (q ! ?i)) \<le> sint (freq m)"
    using m by (simp add: list_all_iff Compare_def not_less)
  moreover have "q ! ?i \<in> set q" using i by simp
  ultimately show ?thesis by (simp add: lowest_def pq_top_def)
qed

lemma mset_pq_pop: "q \<noteq> [] \<Longrightarrow> mset (pq_pop tie q) = mset q - {#pq_top tie q#}"
proof -
  assume "q \<noteq> []"
  then have i: "top_index tie q < length q" by (rule top_index_less)
  have "q = take (top_index tie q) q @ q ! top_index tie q # drop (Suc (top_index tie q)) q"
    using i by (rule id_take_nth_drop)
  then have "mset q = mset (take (top_index tie q) q @ q ! top_index tie q # drop (Suc (top_index tie q)) q)"
    by simp
  also have "\<dots> = add_mset (pq_top tie q) (mset (pq_pop tie q))"
    by (simp add: pq_top_def pq_pop_def)
  finally show ?thesis by simp
qed

lemma seed_queue:
  "foldl (\<lambda>q pair. pq_push (Node (fst pair) (snd pair) Null Null) q) q0 fq =
   q0 @ map (\<lambda>pair. Node (fst pair) (snd pair) Null Null) fq"
  by (induction fq arbitrary: q0) (simp_all add: pq_push_def)

lemma pq_top_single: "pq_top tie [n] = n"
  using top_index_less [of "[n]" tie] by (simp add: pq_top_def)

lemma merge_loop_spec:
  "q \<noteq> [] \<Longrightarrow> \<exists>root. merge_loop tie q = [root] \<and> spec_huffman_tree (mset q) root"
proof (induction tie q rule: merge_loop.induct)
  case (1 tie q)
  show ?case
  proof (cases "1 < length q")
    case False
    with "1.prems" obtain n where q: "q = [n]"
      by (cases q) auto
    then show ?thesis
      by (simp add: merge_loop_done spec_huffman_tree.remaining)
  next
    case True
    define l where "l = pq_top tie q"
    define q1 where "q1 = pq_pop tie q"
    define r where "r = pq_top tie q1"
    define q2 where "q2 = pq_pop tie q1"
    define sum where "sum = Node 0 (freq l + freq r) l r"
    have "length q1 = length q - 1"
      unfolding q1_def using "1.prems" by (rule length_pq_pop)
    with True have q1_ne: "q1 \<noteq> []"
      by auto
    have "\<exists>root. merge_loop tie (pq_push sum q2) = [root] \<and>
                 spec_huffman_tree (mset (pq_push sum q2)) root"
      using "1.IH" [OF True l_def q1_def r_def q2_def sum_def] by (simp add: pq_push_def)
    then obtain root where root: "merge_loop tie (pq_push sum q2) = [root]"
        "spec_huffman_tree (mset (pq_push sum q2)) root"
      by blast
    have step: "merge_loop tie q = merge_loop tie (pq_push sum q2)"
      unfolding l_def q1_def r_def q2_def sum_def using True by (rule merge_loop_step)
    have la: "lowest l (mset q)"
      using "1.prems" by (simp add: l_def pq_top_lowest)
    have m1: "mset q1 = mset q - {#l#}"
      using "1.prems" by (simp add: q1_def l_def mset_pq_pop)
    have lb: "lowest r (mset q - {#l#})"
      using q1_ne pq_top_lowest [of q1 tie] by (simp add: r_def m1)
    have m2: "mset q2 = mset q - {#l#} - {#r#}"
      using q1_ne by (simp add: q2_def r_def mset_pq_pop m1)
    have "mset (pq_push sum q2) = add_mset (Node 0 (freq l + freq r) l r) (mset q - {#l#} - {#r#})"
      unfolding pq_push_def sum_def m2 [symmetric] by simp
    with root(2) have "spec_huffman_tree
        (add_mset (Node 0 (freq l + freq r) l r) (mset q - {#l#} - {#r#})) root"
      by simp
    with la lb have "spec_huffman_tree (mset q) root"
      by (rule spec_huffman_tree.combine)
    with root(1) step show ?thesis by simp
  qed
qed

lemma buildHuffmanTree_merge_loop:
  assumes "merge_loop tie (map (\<lambda>pair. Node (fst pair) (snd pair) Null Null) fq) = [root]"
  shows "buildHuffmanTree tie fq = Inr root"
  using assms by (simp add: buildHuffmanTree_def seed_queue pq_top_single)

lemma buildHuffmanTree_nonempty: "buildHuffmanTree tie fq = Inr root \<Longrightarrow> fq \<noteq> []"
  by (auto simp: buildHuffmanTree_def merge_loop_done)

lemma buildHuffmanTree_result_spec:
  assumes "buildHuffmanTree tie fq = Inr root"
  shows "spec_huffman_tree (mset (map (\<lambda>pair. Node (fst pair) (snd pair) Null Null) fq)) root"
proof -
  let ?q = "map (\<lambda>pair. Node (fst pair) (snd pair) Null Null) fq"
  have "?q \<noteq> []"
    using buildHuffmanTree_nonempty [OF assms] by simp
  then obtain root' where r: "merge_loop tie ?q = [root']" "spec_huffman_tree (mset ?q) root'"
    using merge_loop_spec by blast
  then have "buildHuffmanTree tie fq = Inr root'"
    by (intro buildHuffmanTree_merge_loop)
  with assms r(2) show ?thesis by simp
qed

section \<open>What the construction preserves\<close>

lemma spec_single:
  assumes "spec_huffman_tree {#t#} root"
  shows "root = t"
  using assms
proof (cases rule: spec_huffman_tree.cases)
  case remaining
  then show ?thesis by simp
next
  case (combine a b)
  then have "a = t" by (auto simp: lowest_def)
  with combine show ?thesis by (simp add: lowest_def)
qed

lemma spec_step:
  assumes spec: "spec_huffman_tree M root"
    and M: "M = add_mset a (add_mset b M')"
    and a: "\<forall>m\<in>#add_mset b M'. sint (freq a) < sint (freq m)"
    and b: "\<forall>m\<in>#M'. sint (freq b) < sint (freq m)"
  shows "spec_huffman_tree (add_mset (Node 0 (freq a + freq b) a b) M') root"
  using spec
proof (cases rule: spec_huffman_tree.cases)
  case remaining
  with M show ?thesis
    by (metis add_mset_eq_single empty_not_add_mset)
next
  case (combine a' b')
  have "a' = a"
  proof (rule ccontr)
    assume "a' \<noteq> a"
    with combine(1) M have "a' \<in># add_mset b M'" by (auto simp: lowest_def)
    with a have "sint (freq a) < sint (freq a')" by blast
    moreover have "sint (freq a') \<le> sint (freq a)"
      using combine(1) M by (simp add: lowest_def)
    ultimately show False by simp
  qed
  then have rest: "M - {#a'#} = add_mset b M'" using M by simp
  have "b' = b"
  proof (rule ccontr)
    assume "b' \<noteq> b"
    with combine(2) rest have "b' \<in># M'" by (auto simp: lowest_def)
    with b have "sint (freq b) < sint (freq b')" by blast
    moreover have "sint (freq b') \<le> sint (freq b)"
      using combine(2) rest by (simp add: lowest_def)
    ultimately show False by simp
  qed
  have "M - {#a'#} - {#b'#} = M'"
    using M \<open>a' = a\<close> \<open>b' = b\<close> by simp
  with combine(3) \<open>a' = a\<close> \<open>b' = b\<close> show ?thesis by simp
qed

lemma spec_invariant:
  assumes "spec_huffman_tree M root"
    and "\<forall>n\<in>#M. P n"
    and closed: "\<And>f l r. P l \<Longrightarrow> P r \<Longrightarrow> P (Node 0 f l r)"
  shows "P root"
  using assms(1,2)
proof (induction rule: spec_huffman_tree.induct)
  case (remaining n)
  then show ?case by simp
next
  case (combine a M b root)
  have a: "a \<in># M" and b: "b \<in># M"
    using combine.hyps(1,2) by (auto simp: lowest_def dest: in_diffD)
  have "\<forall>n\<in>#add_mset (Node 0 (freq a + freq b) a b) (M - {#a#} - {#b#}). P n"
    using a b combine.prems closed by (auto dest: in_diffD)
  then show ?case by (rule combine.IH)
qed

lemma spec_merged_root:
  assumes "spec_huffman_tree M root"
    and "2 \<le> size M"
    and "\<forall>n\<in>#M. n \<noteq> Null"
  shows "\<exists>f l r. root = Node 0 f l r \<and> l \<noteq> Null \<and> r \<noteq> Null"
  using assms
proof (induction rule: spec_huffman_tree.induct)
  case (remaining n)
  then show ?case by simp
next
  case (combine a M b root)
  let ?sum = "Node 0 (freq a + freq b) a b"
  let ?M' = "add_mset ?sum (M - {#a#} - {#b#})"
  have a: "a \<in># M" and b: "b \<in># M"
    using combine.hyps(1,2) by (auto simp: lowest_def dest: in_diffD)
  have nn: "\<forall>n\<in>#?M'. n \<noteq> Null"
    using combine.prems(2) by (auto dest: in_diffD)
  show ?case
  proof (cases "2 \<le> size ?M'")
    case True
    then show ?thesis using nn by (rule combine.IH)
  next
    case False
    then have "M - {#a#} - {#b#} = {#}" by (cases "M - {#a#} - {#b#}") auto
    with combine.hyps(3) have "root = ?sum"
      by (simp add: spec_single)
    with a b combine.prems(2) show ?thesis by auto
  qed
qed

lemma spec_leaf_pixels:
  assumes "spec_huffman_tree M root"
    and "\<forall>n\<in>#M. n \<noteq> Null"
  shows "leaf_pixels root = (\<Union>n\<in>set_mset M. leaf_pixels n)"
  using assms
proof (induction rule: spec_huffman_tree.induct)
  case (remaining n)
  then show ?case by simp
next
  case (combine a M b root)
  let ?sum = "Node 0 (freq a + freq b) a b"
  let ?R = "M - {#a#} - {#b#}"
  have a: "a \<in># M" and b: "b \<in># M - {#a#}"
    using combine.hyps(1,2) by (auto simp: lowest_def)
  have "add_mset a (M - {#a#}) = M"
    using a by (rule insert_DiffM)
  moreover have "add_mset b ?R = M - {#a#}"
    using b by (rule insert_DiffM)
  ultimately have M: "M = add_mset a (add_mset b ?R)"
    by (simp only:)
  have nn: "\<forall>n\<in>#add_mset ?sum ?R. n \<noteq> Null"
    using combine.prems by (auto dest: in_diffD)
  have "a \<noteq> Null" using a combine.prems by auto
  then have "leaf_pixels ?sum = leaf_pixels a \<union> leaf_pixels b" by simp
  then have "(\<Union>n\<in>set_mset (add_mset ?sum ?R). leaf_pixels n) =
        leaf_pixels a \<union> leaf_pixels b \<union> (\<Union>n\<in>set_mset ?R. leaf_pixels n)"
    by simp
  also have "\<dots> = (\<Union>n\<in>set_mset (add_mset a (add_mset b ?R)). leaf_pixels n)"
    by auto
  also have "\<dots> = (\<Union>n\<in>set_mset M. leaf_pixels n)"
    using M by simp
  finally show ?case using combine.IH [OF nn] by simp
qed

lemma buildHuffmanTree_strict_binary:
  assumes "buildHuffmanTree tie fq = Inr root"
  shows "strict_binary root"
  using buildHuffmanTree_result_spec [OF assms]
  by (rule spec_invariant) auto

section \<open>The code table\<close>

lemma generateHuffmanCodes_cases:
  "generateHuffmanCodes t str hc a = Some c \<Longrightarrow>
   hc a = Some c \<or> (\<exists>path. (a, path) \<in> set (codes t) \<and> c = str @ path)"
proof (induction t arbitrary: str hc)
  case Null
  then show ?case by simp
next
  case (Node p f l r)
  let ?hc1 = "if p \<noteq> 0 then hc(p \<mapsto> str) else hc"
  let ?hc2 = "generateHuffmanCodes l (str @ ''0'') ?hc1"
  from Node.prems have "generateHuffmanCodes r (str @ ''1'') ?hc2 a = Some c"
    by (simp add: Let_def)
  from Node.IH(2) [OF this]
  consider (r) path where "(a, path) \<in> set (codes r)" "c = (str @ ''1'') @ path"
    | (two) "?hc2 a = Some c" by blast
  then show ?case
  proof cases
    case r
    then show ?thesis by force
  next
    case two
    from Node.IH(1) [OF this]
    consider (l) path where "(a, path) \<in> set (codes l)" "c = (str @ ''0'') @ path"
      | (one) "?hc1 a = Some c" by blast
    then show ?thesis
    proof cases
      case l
      then show ?thesis by force
    next
      case one
      then show ?thesis by (auto split: if_splits)
    qed
  qed
qed

lemma generateHuffmanCodes_dom:
  "dom (generateHuffmanCodes t str hc) = dom hc \<union> fst ` set (codes t)"
proof (induction t arbitrary: str hc)
  case Null
  then show ?case by simp
next
  case (Node p f l r)
  show ?case
    by (simp add: Let_def Node.IH image_Un image_image case_prod_unfold Un_assoc)
qed

lemma codes_prefix_free:
  "strict_binary t \<Longrightarrow> (a, ca) \<in> set (codes t) \<Longrightarrow> (b, cb) \<in> set (codes t) \<Longrightarrow>
   prefix ca cb \<Longrightarrow> a = b"
proof (induction t arbitrary: ca cb)
  case Null
  then show ?case by simp
next
  case (Node p f l r)
  show ?case
  proof (cases "l = Null \<and> r = Null")
    case True
    with Node.prems show ?thesis by (auto split: if_splits)
  next
    case False
    with Node.prems(1) have p: "p = 0" and sl: "strict_binary l" and sr: "strict_binary r"
      by auto
    from Node.prems(2) p obtain x ca' where ca:
      "ca = x # ca'" "(x = CHR ''0'' \<and> (a, ca') \<in> set (codes l)) \<or> (x = CHR ''1'' \<and> (a, ca') \<in> set (codes r))"
      by auto
    from Node.prems(3) p obtain y cb' where cb:
      "cb = y # cb'" "(y = CHR ''0'' \<and> (b, cb') \<in> set (codes l)) \<or> (y = CHR ''1'' \<and> (b, cb') \<in> set (codes r))"
      by auto
    from Node.prems(4) ca(1) cb(1) have xy: "x = y" and pre: "prefix ca' cb'"
      by simp_all
    from ca(2) cb(2) xy show ?thesis
    proof (elim disjE conjE)
      assume "(a, ca') \<in> set (codes l)" "(b, cb') \<in> set (codes l)"
      with sl pre show ?thesis using Node.IH(1) by blast
    next
      assume "(a, ca') \<in> set (codes r)" "(b, cb') \<in> set (codes r)"
      with sr pre show ?thesis using Node.IH(2) by blast
    qed simp_all
  qed
qed

lemma proper_codes: "proper t \<Longrightarrow> fst ` set (codes t) = leaf_pixels t"
proof (induction t)
  case Null
  then show ?case by simp
next
  case (Node p f l r)
  show ?case
  proof (cases "l = Null \<and> r = Null")
    case True
    with Node.prems show ?thesis by simp
  next
    case False
    with Node.prems have "p = 0" "proper l" "proper r" by auto
    with False Node.IH show ?thesis
      by (simp add: image_Un image_image case_prod_unfold)
  qed
qed

section \<open>Decoding\<close>

lemma proper_leaf_codes: "proper t \<Longrightarrow> is_leaf t \<Longrightarrow> codes t = [(pixel t, [])]"
  by (cases t) (auto simp: is_leaf_def)

lemma decode_step:
  assumes "proper c" "c = (if x = CHR ''0'' then l else r)"
  shows "decode_loop root (Node 0 f l r) (x # bs) out =
         (if is_leaf c then decode_loop root root bs (out @ [pixel c])
          else decode_loop root c bs out)"
proof (cases c)
  case Null
  with assms show ?thesis by simp
next
  case (Node p' f' l' r')
  show ?thesis
  proof (cases "is_leaf c")
    case True
    with assms(1) Node have "p' \<noteq> 0" by (auto simp: is_leaf_def)
    with True Node assms(2) show ?thesis
      by (auto split: if_splits)
  next
    case False
    with assms(1) Node have "p' = 0" by (auto simp: is_leaf_def split: if_splits)
    with False Node assms(2) show ?thesis
      by (auto split: if_splits)
  qed
qed

lemma decode_code:
  "proper t \<Longrightarrow> \<not> is_leaf t \<Longrightarrow> (a, path) \<in> set (codes t) \<Longrightarrow>
   decode_loop root t (path @ rest) out = decode_loop root root rest (out @ [a])"
proof (induction t arbitrary: path)
  case Null
  then show ?case by simp
next
  case (Node p f l r)
  from Node.prems(1,2) have p: "p = 0" and pl: "proper l" and pr: "proper r"
    by (auto simp: is_leaf_def split: if_splits)
  from Node.prems(3) p obtain x path' where path: "path = x # path'"
    and sub: "(x = CHR ''0'' \<and> (a, path') \<in> set (codes l)) \<or>
              (x = CHR ''1'' \<and> (a, path') \<in> set (codes r))"
    by auto
  define c where "c = (if x = CHR ''0'' then l else r)"
  have pc: "proper c" and ac: "(a, path') \<in> set (codes c)"
    using sub pl pr by (auto simp: c_def)
  have step: "decode_loop root (Node p f l r) (path @ rest) out =
      (if is_leaf c then decode_loop root root (path' @ rest) (out @ [pixel c])
       else decode_loop root c (path' @ rest) out)"
    unfolding p path using decode_step [OF pc c_def] by simp
  show ?case
  proof (cases "is_leaf c")
    case True
    with pc ac have "a = pixel c" "path' = []"
      by (simp_all add: proper_leaf_codes)
    with step True show ?thesis by simp
  next
    case False
    have "decode_loop root c (path' @ rest) out = decode_loop root root rest (out @ [a])"
      using sub pl pr False ac Node.IH unfolding c_def by (auto split: if_splits)
    with step False show ?thesis by simp
  qed
qed

lemma decode_incomplete:
  "proper t \<Longrightarrow> \<not> is_leaf t \<Longrightarrow> (a, path) \<in> set (codes t) \<Longrightarrow> strict_prefix s path \<Longrightarrow>
   decode_loop root t s out = Inr out"
proof (induction t arbitrary: path s)
  case Null
  then show ?case by simp
next
  case (Node p f l r)
  show ?case
  proof (cases s)
    case Nil
    then show ?thesis by simp
  next
    case (Cons x s')
    from Node.prems(1,2) have p: "p = 0" and pl: "proper l" and pr: "proper r"
      by (auto simp: is_leaf_def split: if_splits)
    from Node.prems(4) Cons obtain path' where path: "path = x # path'"
      and sp: "strict_prefix s' path'"
      by (cases path) auto
    from Node.prems(3) p path have sub: "(x = CHR ''0'' \<and> (a, path') \<in> set (codes l)) \<or>
              (x = CHR ''1'' \<and> (a, path') \<in> set (codes r))"
      by auto
    define c where "c = (if x = CHR ''0'' then l else r)"
    have pc: "proper c" and ac: "(a, path') \<in> set (codes c)"
      using sub pl pr by (auto simp: c_def)
    have nl: "\<not> is_leaf c"
    proof
      assume "is_leaf c"
      with pc ac have "path' = []" by (simp add: proper_leaf_codes)
      with sp show False by simp
    qed
    have "decode_loop root (Node p f l r) s out = decode_loop root c s' out"
      unfolding p Cons using decode_step [OF pc c_def] nl by simp
    also have "\<dots> = Inr out"
      using sub pl pr nl ac sp Node.IH unfolding c_def by (auto split: if_splits)
    finally show ?thesis .
  qed
qed

lemma decode_encoded:
  assumes "proper root" "\<not> is_leaf root"
    and "\<forall>s\<in>set S. (s, code s) \<in> set (codes root)"
  shows "decode_loop root root (concat (map code S) @ rest) out =
         decode_loop root root rest (out @ S)"
  using assms(3)
proof (induction S arbitrary: out)
  case Nil
  then show ?case by simp
next
  case (Cons s S)
  have "decode_loop root root (code s @ concat (map code S) @ rest) out =
        decode_loop root root (concat (map code S) @ rest) (out @ [s])"
    using assms(1,2) Cons.prems by (intro decode_code) auto
  also have "\<dots> = decode_loop root root rest ((out @ [s]) @ S)"
    using Cons.prems by (intro Cons.IH) auto
  finally show ?case by simp
qed

lemma buildHuffmanTree_proper:
  assumes build: "buildHuffmanTree tie fq = Inr root"
    and two: "2 \<le> length fq"
    and nz: "0 \<notin> fst ` set fq"
  shows "proper root" and "\<not> is_leaf root" and "fst ` set (codes root) = fst ` set fq"
proof -
  let ?M = "mset (map (\<lambda>pair. Node (fst pair) (snd pair) Null Null) fq)"
  have spec: "spec_huffman_tree ?M root"
    using build by (rule buildHuffmanTree_result_spec)
  have "\<forall>n\<in>#?M. proper n"
    using nz by force
  with spec show p: "proper root"
    by (rule spec_invariant) (auto split: if_splits)
  have nn: "\<forall>n\<in>#?M. n \<noteq> Null"
    by auto
  have "2 \<le> size ?M"
    using two by simp
  with spec obtain f l r where "root = Node 0 f l r" "l \<noteq> Null"
    using nn spec_merged_root by blast
  then show "\<not> is_leaf root"
    by (simp add: is_leaf_def)
  have "leaf_pixels root = (\<Union>n\<in>set_mset ?M. leaf_pixels n)"
    using spec nn by (rule spec_leaf_pixels)
  also have "\<dots> = fst ` set fq"
    by auto
  finally show "fst ` set (codes root) = fst ` set fq"
    using p by (simp add: proper_codes)
qed

lemma code_of_in_codes:
  assumes "s \<in> fst ` set (codes root)"
  shows "(s, code_of (generateHuffmanCodes root [] Map.empty) s) \<in> set (codes root)"
proof -
  let ?hc = "generateHuffmanCodes root [] Map.empty"
  have "s \<in> dom ?hc"
    using assms by (simp add: generateHuffmanCodes_dom)
  then obtain c where c: "?hc s = Some c"
    by auto
  then have "(s, c) \<in> set (codes root)"
    using generateHuffmanCodes_cases [OF c] by simp
  with c show ?thesis
    by (simp add: code_of_def)
qed

section \<open>The tree\<close>

text \<open>
  C6. For every frequency table with at least one entry, \<^verbatim>\<open>buildHuffmanTree\<close> returns a
  root, and that root is a result of the specification's construction started from one
  leaf per entry with the entry's frequency: the two lowest nodes are extracted, the first
  becomes the left and the second the right child of a node with the sum of their
  frequencies, that node is put back, and the single node left at the end is the root.
\<close>

theorem buildHuffmanTree_follows_spec:
  assumes "fq \<noteq> []"
  shows "\<exists>root. buildHuffmanTree tie fq = Inr root \<and>
     spec_huffman_tree (mset (map (\<lambda>pair. Node (fst pair) (snd pair) Null Null) fq)) root"
proof -
  let ?q = "map (\<lambda>pair. Node (fst pair) (snd pair) Null Null) fq"
  have "?q \<noteq> []"
    using assms by simp
  then obtain root where r: "merge_loop tie ?q = [root]" "spec_huffman_tree (mset ?q) root"
    using merge_loop_spec by blast
  from r(1) have "buildHuffmanTree tie fq = Inr root"
    by (rule buildHuffmanTree_merge_loop)
  with r(2) show ?thesis by blast
qed

theorem buildHuffmanTree_follows_spec_witness:
  "[(1, 1), (2, 2), (3, 4 :: cint)] \<noteq> [] \<and>
   (\<exists>root. buildHuffmanTree (\<lambda>q. 0) [(1, 1), (2, 2), (3, 4)] = Inr root \<and>
     spec_huffman_tree
       (mset (map (\<lambda>pair. Node (fst pair) (snd pair) Null Null) [(1, 1), (2, 2), (3, 4)])) root)"
  using buildHuffmanTree_follows_spec [of "[(1, 1), (2, 2), (3, 4)]" "\<lambda>q. 0"]
  by simp

text \<open>
  C7. The claim: with an empty frequency table the program fails with a typed error
  before it builds anything. \<^verbatim>\<open>buildHuffmanTree\<close> has no such check: it pushes nothing,
  skips the loop and returns \<^verbatim>\<open>minHeap.top()\<close> of the empty queue, which is undefined.
\<close>

theorem buildHuffmanTree_empty_table:
  "buildHuffmanTree tie [] = Inl TopOfEmptyQueue"
  by (simp add: build_eval)

lemma weighted_code_length_mset:
  "weighted_code_length fq hc =
   sum_mset (image_mset (\<lambda>pair. sint (snd pair) * int (length (code_of hc (fst pair)))) (mset fq))"
proof -
  let ?g = "\<lambda>pair. sint (snd pair) * int (length (code_of hc (fst pair)))"
  have "sum_list (map ?g fq) = sum_mset (mset (map ?g fq))"
    by (rule sum_mset_sum_list [symmetric])
  then show ?thesis
    unfolding weighted_code_length_def by (simp only: mset_map)
qed

text \<open>
  C9. For the frequencies A:5, B:9, C:12, D:13, E:16, F:45, with the letters as the byte
  values 65 to 70, in whatever order the table is iterated and however the queue breaks
  ties, the tree of \<^verbatim>\<open>buildHuffmanTree\<close> and the codes of \<^verbatim>\<open>generateHuffmanCodes\<close> have the
  total weighted code length 224.
\<close>

theorem classic_example_weighted_length:
  assumes fq: "mset fq = {#(65, 5), (66, 9), (67, 12), (68, 13), (69, 16), (70, 45)#}"
  shows "\<exists>root. buildHuffmanTree tie fq = Inr root \<and>
     weighted_code_length fq (generateHuffmanCodes root [] Map.empty) = 224"
proof -
  define A where "A = Node 65 5 Null Null"
  define B where "B = Node 66 9 Null Null"
  define C where "C = Node 67 12 Null Null"
  define D where "D = Node 68 13 Null Null"
  define E where "E = Node 69 16 Null Null"
  define F where "F = Node 70 45 Null Null"
  define AB where "AB = Node 0 14 A B"
  define CD where "CD = Node 0 25 C D"
  define ABE where "ABE = Node 0 30 AB E"
  define CDABE where "CDABE = Node 0 55 CD ABE"
  define T where "T = Node 0 100 F CDABE"
  have fA: "freq A = 5" and fB: "freq B = 9" and fC: "freq C = 12" and fD: "freq D = 13"
    and fE: "freq E = 16" and fF: "freq F = 45" and fAB: "freq AB = 14" and fCD: "freq CD = 25"
    and fABE: "freq ABE = 30" and fCDABE: "freq CDABE = 55"
    by (simp_all add: A_def B_def C_def D_def E_def F_def AB_def CD_def ABE_def CDABE_def)
  note fr = fA fB fC fD fE fF fAB fCD fABE fCDABE
  have nAB: "Node 0 (freq A + freq B) A B = AB" by (simp add: AB_def fr)
  have nCD: "Node 0 (freq C + freq D) C D = CD" by (simp add: CD_def fr)
  have nABE: "Node 0 (freq AB + freq E) AB E = ABE" by (simp add: ABE_def fr)
  have nCDABE: "Node 0 (freq CD + freq ABE) CD ABE = CDABE" by (simp add: CDABE_def fr)
  have nT: "Node 0 (freq F + freq CDABE) F CDABE = T" by (simp add: T_def fr)
  let ?q = "map (\<lambda>pair. Node (fst pair) (snd pair) Null Null) fq"
  have "?q \<noteq> []" using fq by auto
  then obtain root where loop: "merge_loop tie ?q = [root]"
    and spec: "spec_huffman_tree (mset ?q) root"
    using merge_loop_spec by blast
  from loop have root: "buildHuffmanTree tie fq = Inr root"
    by (rule buildHuffmanTree_merge_loop)
  have "mset (map (\<lambda>pair. Node (fst pair) (snd pair) Null Null) fq) =
        image_mset (\<lambda>pair. Node (fst pair) (snd pair) Null Null) (mset fq)"
    by simp
  also have "\<dots> = {#A, B, C, D, E, F#}"
    unfolding fq by (simp add: A_def B_def C_def D_def E_def F_def)
  finally have s0: "spec_huffman_tree {#A, B, C, D, E, F#} root"
    using spec by simp
  have "spec_huffman_tree (add_mset (Node 0 (freq A + freq B) A B) {#C, D, E, F#}) root"
    using s0 by (rule spec_step) (simp_all add: fr)
  then have s1: "spec_huffman_tree {#AB, C, D, E, F#} root"
    by (simp only: nAB)
  have e1: "{#AB, C, D, E, F#} = add_mset C (add_mset D {#AB, E, F#})"
    by (simp add: add_mset_commute)
  have "spec_huffman_tree (add_mset (Node 0 (freq C + freq D) C D) {#AB, E, F#}) root"
    using s1 e1 by (rule spec_step) (simp_all add: fr)
  then have s2: "spec_huffman_tree {#CD, AB, E, F#} root"
    by (simp only: nCD)
  have e2: "{#CD, AB, E, F#} = add_mset AB (add_mset E {#CD, F#})"
    by (simp add: add_mset_commute)
  have "spec_huffman_tree (add_mset (Node 0 (freq AB + freq E) AB E) {#CD, F#}) root"
    using s2 e2 by (rule spec_step) (simp_all add: fr)
  then have s3: "spec_huffman_tree {#ABE, CD, F#} root"
    by (simp only: nABE)
  have e3: "{#ABE, CD, F#} = add_mset CD (add_mset ABE {#F#})"
    by (simp add: add_mset_commute)
  have "spec_huffman_tree (add_mset (Node 0 (freq CD + freq ABE) CD ABE) {#F#}) root"
    using s3 e3 by (rule spec_step) (simp_all add: fr)
  then have s4: "spec_huffman_tree {#CDABE, F#} root"
    by (simp only: nCDABE)
  have e4: "{#CDABE, F#} = add_mset F (add_mset CDABE {#})"
    by (simp add: add_mset_commute)
  have "spec_huffman_tree (add_mset (Node 0 (freq F + freq CDABE) F CDABE) {#}) root"
    using s4 e4 by (rule spec_step) (simp_all add: fr)
  then have "spec_huffman_tree {#T#} root"
    by (simp only: nT)
  then have "root = T" by (rule spec_single)
  moreover have "generateHuffmanCodes T [] Map.empty =
      [65 \<mapsto> ''1100'', 66 \<mapsto> ''1101'', 67 \<mapsto> ''100'', 68 \<mapsto> ''101'', 69 \<mapsto> ''111'', 70 \<mapsto> ''0'']"
    by (simp add: T_def A_def B_def C_def D_def E_def F_def AB_def CD_def ABE_def CDABE_def fun_upd_twist)
  then have "weighted_code_length fq (generateHuffmanCodes T [] Map.empty) = 224"
    unfolding weighted_code_length_mset fq
    by (simp add: code_of_def)
  ultimately show ?thesis using root by simp
qed

theorem classic_example_weighted_length_witness:
  "mset [(65, 5), (66, 9), (67, 12), (68, 13), (69, 16), (70, 45)] =
     {#(65, 5), (66, 9), (67, 12), (68, 13), (69, 16), (70, 45 :: cint)#} \<and>
   (\<exists>root. buildHuffmanTree (\<lambda>q. 0) [(65, 5), (66, 9), (67, 12), (68, 13), (69, 16), (70, 45)] = Inr root \<and>
     weighted_code_length [(65, 5), (66, 9), (67, 12), (68, 13), (69, 16), (70, 45)]
       (generateHuffmanCodes root [] Map.empty) = 224)"
  using classic_example_weighted_length [of "[(65, 5), (66, 9), (67, 12), (68, 13), (69, 16), (70, 45)]" "\<lambda>q. 0"]
  by simp

section \<open>The code table of the built tree\<close>

text \<open>
  C4. For every non-empty frequency table, the code table that \<^verbatim>\<open>generateHuffmanCodes\<close>
  fills from the tree of \<^verbatim>\<open>buildHuffmanTree\<close> is prefix-free: the codes of two different
  symbols that both have an entry are not a prefix of one another.
\<close>

theorem generateHuffmanCodes_prefix_free:
  assumes "fq \<noteq> []"
    and "buildHuffmanTree tie fq = Inr root"
    and a: "generateHuffmanCodes root [] Map.empty a = Some ca"
    and b: "generateHuffmanCodes root [] Map.empty b = Some cb"
    and "a \<noteq> b"
  shows "\<not> prefix ca cb \<and> \<not> prefix cb ca"
proof -
  have sb: "strict_binary root"
    using assms(2) by (rule buildHuffmanTree_strict_binary)
  have ca: "(a, ca) \<in> set (codes root)"
    using generateHuffmanCodes_cases [OF a] by simp
  have cb: "(b, cb) \<in> set (codes root)"
    using generateHuffmanCodes_cases [OF b] by simp
  show ?thesis
    using codes_prefix_free [OF sb ca cb] codes_prefix_free [OF sb cb ca] \<open>a \<noteq> b\<close> by blast
qed

theorem generateHuffmanCodes_prefix_free_witness:
  "[(1, 1), (2, 2), (3, 4 :: cint)] \<noteq> [] \<and>
   buildHuffmanTree (\<lambda>q. 0) [(1, 1), (2, 2), (3, 4)] =
     Inr (Node 0 7 (Node 0 3 (Node 1 1 Null Null) (Node 2 2 Null Null)) (Node 3 4 Null Null)) \<and>
   generateHuffmanCodes
     (Node 0 7 (Node 0 3 (Node 1 1 Null Null) (Node 2 2 Null Null)) (Node 3 4 Null Null))
     [] Map.empty 1 = Some ''00'' \<and>
   generateHuffmanCodes
     (Node 0 7 (Node 0 3 (Node 1 1 Null Null) (Node 2 2 Null Null)) (Node 3 4 Null Null))
     [] Map.empty 3 = Some ''1'' \<and>
   (1 :: uchar) \<noteq> 3 \<and>
   \<not> prefix ''00'' ''1'' \<and> \<not> prefix ''1'' ''00''"
  using generateHuffmanCodes_prefix_free [of "[(1, 1), (2, 2), (3, 4)]" "\<lambda>q. 0"
      "Node 0 7 (Node 0 3 (Node 1 1 Null Null) (Node 2 2 Null Null)) (Node 3 4 Null Null)"
      1 "''00''" 3 "''1''"]
  by (simp add: build_eval)

text \<open>
  C5. The claim: every symbol of the alphabet, the value 0 too, receives a code, and the
  code of the only symbol of a one-symbol alphabet is not empty. For the table
  \<open>{0: 3, 5: 2}\<close> the code table has no entry for 0, and for the table \<open>{7: 100}\<close> the
  code of 7 is the empty string.
\<close>

theorem generateHuffmanCodes_misses_zero_and_single:
  "(\<exists>root. buildHuffmanTree tie [(0, 3), (5, 2)] = Inr root \<and>
           generateHuffmanCodes root [] Map.empty 0 = None) \<and>
   (\<exists>root. buildHuffmanTree tie [(7, 100)] = Inr root \<and>
           generateHuffmanCodes root [] Map.empty 7 = Some [])"
  by (simp add: build_eval)

section \<open>Packing and unpacking\<close>

text \<open>
  C2. The claim: a bit sequence of any length \<open>L\<close> comes back from \<^verbatim>\<open>writeCompressed\<close> and
  \<^verbatim>\<open>readCompressed\<close> as the same \<open>L\<close> bits. For the three bits 101 the file holds the byte
  5 and \<^verbatim>\<open>readCompressed\<close> returns the eight characters 00000101: \<^verbatim>\<open>replace(0, 8, ...)\<close> puts
  all eight characters of the byte in place of the three that the string has.
\<close>

theorem pack_unpack_three_bits:
  "\<exists>file. writeCompressed ''101'' w h = Inr file \<and>
          readCompressed file = Inr (''00000101'', w, h, 3)"
  by (simp add: file_eval bit_numeral_simps)

text \<open>
  C3. The claim: the last byte carries the remaining bits in its high-order positions and
  zeros in the low-order ones. For the three bits 101 the byte written is 5, binary
  00000101: the bits sit in the low-order positions, below five zeros. The claimed byte
  would be 160, binary 10100000. For the eleven bits 10100000111 the first byte is 160,
  most significant bit first, and the last byte is 7, binary 00000111, where the claim
  has 224, binary 11100000.
\<close>

theorem writeCompressed_three_bits:
  "writeCompressed ''101'' w h =
     Inr \<lparr>bitsCount = 3, width = w, height = h, payload = [5]\<rparr> \<and>
   writeCompressed ''10100000111'' w h =
     Inr \<lparr>bitsCount = 11, width = w, height = h, payload = [160, 7]\<rparr>"
  by (simp add: file_eval)

section \<open>Decoding with the built tree\<close>

text \<open>
  C8, as amended. \<^verbatim>\<open>decompressImage\<close> has no failure for a stream that ends inside a code.
  For a tree built from at least two symbols, none of them 0: when the stream is the codes
  of the samples \<open>S\<close> followed by bits \<open>t\<close> that are a proper beginning of some symbol's
  code, the function returns exactly \<open>S\<close>; the bits of the incomplete path are dropped
  without a symbol and without an error.
\<close>

theorem decompressImage_drops_incomplete_path:
  assumes build: "buildHuffmanTree tie fq = Inr root"
    and two: "2 \<le> length fq"
    and nz: "0 \<notin> fst ` set fq"
    and S: "set S \<subseteq> fst ` set fq"
    and a: "a \<in> fst ` set fq"
    and t: "strict_prefix t (code_of (generateHuffmanCodes root [] Map.empty) a)"
  shows "decompressImage
           (concat (map (code_of (generateHuffmanCodes root [] Map.empty)) S) @ t) root w h
         = Inr S"
proof -
  let ?code = "code_of (generateHuffmanCodes root [] Map.empty)"
  note tree = buildHuffmanTree_proper [OF build two nz]
  have codes: "\<forall>s\<in>set S. (s, ?code s) \<in> set (codes root)"
    using S tree(3) code_of_in_codes by blast
  have "(a, ?code a) \<in> set (codes root)"
    using a tree(3) code_of_in_codes by blast
  then have "decode_loop root root t S = Inr S"
    using tree(1,2) t by (intro decode_incomplete)
  moreover have "decode_loop root root (concat (map ?code S) @ t) [] = decode_loop root root t ([] @ S)"
    using tree(1,2) codes by (rule decode_encoded)
  ultimately show ?thesis
    by (simp add: decompressImage_def)
qed

theorem decompressImage_drops_incomplete_path_witness:
  "buildHuffmanTree (\<lambda>q. 0) [(1, 1), (2, 2), (3, 4)] =
     Inr (Node 0 7 (Node 0 3 (Node 1 1 Null Null) (Node 2 2 Null Null)) (Node 3 4 Null Null)) \<and>
   (2 :: nat) \<le> length [(1, 1), (2, 2), (3, 4 :: cint)] \<and>
   (0 :: uchar) \<notin> fst ` set [(1, 1), (2, 2), (3, 4 :: cint)] \<and>
   set [3, 1] \<subseteq> fst ` set [(1 :: uchar, 1), (2, 2), (3, 4 :: cint)] \<and>
   (2 :: uchar) \<in> fst ` set [(1, 1), (2, 2), (3, 4 :: cint)] \<and>
   strict_prefix ''0'' (code_of (generateHuffmanCodes
     (Node 0 7 (Node 0 3 (Node 1 1 Null Null) (Node 2 2 Null Null)) (Node 3 4 Null Null))
     [] Map.empty) 2) \<and>
   decompressImage ''1000''
     (Node 0 7 (Node 0 3 (Node 1 1 Null Null) (Node 2 2 Null Null)) (Node 3 4 Null Null)) 2 1
   = Inr [3, 1]"
  using decompressImage_drops_incomplete_path [of "\<lambda>q. 0" "[(1, 1), (2, 2), (3, 4)]"
      "Node 0 7 (Node 0 3 (Node 1 1 Null Null) (Node 2 2 Null Null)) (Node 3 4 Null Null)"
      "[3, 1]" 2 "''0''" 2 1]
  by (simp add: build_eval code_of_def)

text \<open>C8 as stated fails: in the tree of the table \<open>{1: 1, 2: 2, 3: 4}\<close> the codes
  are 00, 01 and 1; after the two bits 10 the cursor is on the inner node above 1 and 2,
  and the result is the sample 3, returned as a success.\<close>

theorem decompressImage_incomplete_path_no_failure:
  "buildHuffmanTree (\<lambda>q. 0) [(1, 1), (2, 2), (3, 4)] =
     Inr (Node 0 7 (Node 0 3 (Node 1 1 Null Null) (Node 2 2 Null Null)) (Node 3 4 Null Null)) \<and>
   decompressImage ''10''
     (Node 0 7 (Node 0 3 (Node 1 1 Null Null) (Node 2 2 Null Null)) (Node 3 4 Null Null)) 2 1
   = Inr [3]"
  by (simp add: build_eval decompressImage_def)

text \<open>
  C10. \<^verbatim>\<open>decompressImage\<close> does not read its width and height parameters: the result is
  the same for any two pairs of them, so it is not compared with their product.
\<close>

theorem decompressImage_ignores_dimensions:
  "decompressImage d r w1 h1 = decompressImage d r w2 h2"
  by (simp add: decompressImage_def)

section \<open>The round trip of main\<close>

text \<open>
  C1. The claim: for every sample sequence, of length 0 and 1 too, the decompressed
  sequence equals the original. On the image of one sample 7 the program does not
  return it: the tree is the single leaf, \<^verbatim>\<open>generateHuffmanCodes\<close> stores the empty string
  for 7, the compressed data has no bits, and \<^verbatim>\<open>decompressImage\<close> yields the empty
  sequence. This holds whatever the width, the height and the order of the queue.
\<close>

theorem main_roundtrip_single_sample_lost:
  "main_roundtrip tie [7] w h = Inr [] \<and> main_roundtrip tie [7] w h \<noteq> Inr [7]"
  by (simp add: main_roundtrip_def build_eval code_of_def file_eval decompressImage_def)

end
